theory Spec2Isabelle
  imports Main
begin

section \<open>Scaffold orthogonality: the embedding of Scaffold\_Orthogonality.py\<close>

text \<open>
  The script compares every window of length \<open>n\<close> of one DNA scaffold with every window
  of a second one. Python's \<open>str\<close> is modelled as \<open>string\<close>, its unbounded \<open>int\<close> as
  \<open>int\<close>, loop indices produced by \<open>range(len(...))\<close> as \<open>nat\<close>. An exception is a value
  \<open>Inl e\<close> of a sum type, a normal return is \<open>Inr v\<close>.
\<close>

subsection \<open>Python values and slicing\<close>

text \<open>
  The exceptions the modelled functions can raise: \<open>REVERSE[base]\<close> raises \<open>KeyError\<close>
  for a missing key, \<open>exit(0)\<close> raises \<open>SystemExit\<close> with code 0.
\<close>

datatype error = KeyError char | SystemExit int

text \<open>
  The numbers held by the reverse-complement counter: an \<open>int\<close>, or \<open>math.nan\<close>, a value
  of Python's type \<open>float\<close>. No other float is ever created by the script.
\<close>

datatype pynum = PyInt int | PyNaN

text \<open>\<open>x + k\<close> and \<open>x - k\<close> for an integer \<open>k\<close>: with \<open>nan\<close> on the left the result is \<open>nan\<close>.\<close>

fun py_add :: "pynum \<Rightarrow> int \<Rightarrow> pynum" where
  "py_add (PyInt a) k = PyInt (a + k)"
| "py_add PyNaN k = PyNaN"

fun py_sub :: "pynum \<Rightarrow> int \<Rightarrow> pynum" where
  "py_sub (PyInt a) k = PyInt (a - k)"
| "py_sub PyNaN k = PyNaN"

text \<open>
  How a slice bound is adjusted to a sequence of length \<open>len\<close>: a negative bound counts
  from the end, and what still lies outside is clamped; to \<open>[0, len]\<close> for a positive
  step, to \<open>[-1, len - 1]\<close> for a negative one.
\<close>

definition adjust_pos :: "int \<Rightarrow> int \<Rightarrow> int" where
  "adjust_pos len k = (if k < 0 then max (k + len) 0 else min k len)"

definition adjust_neg :: "int \<Rightarrow> int \<Rightarrow> int" where
  "adjust_neg len k = (if k < 0 then max (k + len) (- 1) else min k (len - 1))"

text \<open>\<open>xs[start:stop]\<close>: the elements at \<open>start, start + 1, ...\<close> below \<open>stop\<close>.\<close>

definition py_slice :: "'a list \<Rightarrow> int \<Rightarrow> int \<Rightarrow> 'a list" where
  "py_slice xs start stop =
     (let len = int (length xs);
          lo = adjust_pos len start;
          hi = adjust_pos len stop
      in take (nat (hi - lo)) (drop (nat lo) xs))"

text \<open>\<open>xs[start:stop:-1]\<close>: the elements at \<open>start, start - 1, ...\<close> above \<open>stop\<close>.\<close>

definition py_slice_rev :: "'a list \<Rightarrow> int \<Rightarrow> int \<Rightarrow> 'a list" where
  "py_slice_rev xs start stop =
     (let len = int (length xs);
          hi = adjust_neg len start;
          lo = adjust_neg len stop
      in rev (take (nat (hi - lo)) (drop (nat (lo + 1)) xs)))"

text \<open>
  A \<open>for\<close> loop over a list of indices whose body may raise: the state is threaded
  through the iterations and the first exception ends the loop.
\<close>

fun for_loop :: "('a \<Rightarrow> 's \<Rightarrow> error + 's) \<Rightarrow> 'a list \<Rightarrow> 's \<Rightarrow> error + 's" where
  "for_loop body [] s = Inr s"
| "for_loop body (x # xs) s =
     (case body x s of Inl e \<Rightarrow> Inl e | Inr s' \<Rightarrow> for_loop body xs s')"

subsection \<open>The configuration\<close>

definition REVERSE :: "char \<rightharpoonup> char" where
  "REVERSE = [CHR ''A'' \<mapsto> CHR ''T'', CHR ''T'' \<mapsto> CHR ''A'',
              CHR ''G'' \<mapsto> CHR ''C'', CHR ''C'' \<mapsto> CHR ''G'']"

text \<open>The class \<open>Project\<close>; a \<open>Path\<close> is kept as its string.\<close>

record Project =
  folder :: string
  sc1_path :: string
  sc2_path :: string
  n :: int
  is_linear :: bool
  get_rev_compl :: bool

subsection \<open>Reading a scaffold: \<open>proc_infile\<close>\<close>

text \<open>
  The file is modelled by the text that is still to be read from it, as the text stream
  delivers it. \<open>readline\<close> returns the text up to and including the first newline, or
  all of it when there is none.
\<close>

definition newline :: char where
  "newline = CHR 0x0A"

fun readline :: "string \<Rightarrow> string" where
  "readline [] = []"
| "readline (c # cs) = (if c = newline then [c] else c # readline cs)"

text \<open>
  \<open>str.upper\<close>: the letters \<open>a\<close> to \<open>z\<close> become \<open>A\<close> to \<open>Z\<close>. A \<open>char\<close> is a byte; on
  the bytes that are not ASCII letters the model changes nothing, where Python may
  map a letter to another symbol that is not an ASCII letter either.
\<close>

definition upper_char :: "char \<Rightarrow> char" where
  "upper_char c =
     (let code = (of_char c :: nat)
      in if of_char CHR ''a'' \<le> code \<and> code \<le> of_char CHR ''z''
         then char_of (code - 32) else c)"

definition upper :: "string \<Rightarrow> string" where
  "upper s = map upper_char s"

text \<open>\<open>s.strip("\n")\<close> removes the newlines at both ends.\<close>

definition strip_newline :: "string \<Rightarrow> string" where
  "strip_newline s =
     rev (dropWhile (\<lambda>c. c = newline) (rev (dropWhile (\<lambda>c. c = newline) s)))"

text \<open>
  \<open>proc_infile\<close>; the message printed before \<open>exit(0)\<close> is not part of the model.
\<close>

definition proc_infile :: "string \<Rightarrow> error + string" where
  "proc_infile file =
     (let sc_str = strip_newline (upper (readline file));
          is_not_ATGC = \<not> set sc_str \<subseteq> set ''ATGC''
      in if is_not_ATGC then Inl (SystemExit 0) else Inr sc_str)"

subsection \<open>The scoring: \<open>check_ortho\<close>\<close>

text \<open>
  \<open>complement\<close>: the loop looks every base up in \<open>REVERSE\<close> and binds the result to the
  loop variable only; the segment itself is what is returned.
\<close>

fun complement_loop :: "string \<Rightarrow> string \<Rightarrow> error + string" where
  "complement_loop [] segment = Inr segment"
| "complement_loop (base # rest) segment =
     (case REVERSE base of
        None \<Rightarrow> Inl (KeyError base)
      | Some base' \<Rightarrow> complement_loop rest segment)"

definition complement :: "string \<Rightarrow> error + string" where
  "complement segment = complement_loop segment segment"

definition circularise_sc :: "Project \<Rightarrow> string \<Rightarrow> string \<Rightarrow> string \<times> string" where
  "circularise_sc project sc1 sc2 =
     (if is_linear project then (sc1, sc2)
      else (sc1 @ py_slice sc1 0 (n project), sc2 @ py_slice sc2 0 (n project)))"

definition is_match :: "string \<Rightarrow> string \<Rightarrow> Project \<Rightarrow> bool" where
  "is_match seg1 seg2 project \<longleftrightarrow> seg1 = seg2 \<and> int (length seg1) = n project"

text \<open>The dictionary returned by \<open>check_ortho\<close>, a field for each of its six keys.\<close>

record ortho_output =
  count :: int
  count_revcompl :: pynum
  count_corrected :: int
  count_revcompl_corrected :: pynum
  n_count :: "int list"
  n_count_revcompl :: "int list"

text \<open>
  The body of the inner loop at index \<open>i\<close> of \<open>sc2\<close>. Its state is
  \<open>(count, count_RC, repeat_count, repeat_count_RC)\<close>.
\<close>

definition inner_body ::
  "Project \<Rightarrow> string \<Rightarrow> string \<Rightarrow> nat \<Rightarrow> int \<times> pynum \<times> int \<times> int
     \<Rightarrow> error + int \<times> pynum \<times> int \<times> int" where
  "inner_body project sc1_seg sc2_full i s =
     (case s of (cnt, cnt_RC, repeat_count, repeat_count_RC) \<Rightarrow>
        let sc2_seg = py_slice sc2_full (int i) (int i + n project);
            hit = is_match sc1_seg sc2_seg project;
            cnt = (if hit then cnt + 1 else cnt);
            repeat_count = (if hit then repeat_count + 1 else repeat_count)
        in if get_rev_compl project then
             (case complement (py_slice_rev sc2_full (int i + n project) (int i)) of
                Inl e \<Rightarrow> Inl e
              | Inr sc2_seg_RC \<Rightarrow>
                  if is_match sc1_seg sc2_seg_RC project
                  then Inr (cnt, py_add cnt_RC 1, repeat_count, repeat_count_RC + 1)
                  else Inr (cnt, cnt_RC, repeat_count, repeat_count_RC))
           else Inr (cnt, cnt_RC, repeat_count, repeat_count_RC))"

text \<open>
  The body of the outer loop at index \<open>i\<close> of \<open>sc1\<close>. Its state is
  \<open>(count, count_RC, n_count, n_count_RC)\<close>. The inner loop binds the same name \<open>i\<close>;
  the window of \<open>sc1\<close> is taken before, and the outer \<open>range\<close> is not affected.
\<close>

definition outer_body ::
  "Project \<Rightarrow> string \<Rightarrow> string \<Rightarrow> nat \<Rightarrow> nat \<Rightarrow> int \<times> pynum \<times> int list \<times> int list
     \<Rightarrow> error + int \<times> pynum \<times> int list \<times> int list" where
  "outer_body project sc1_full sc2_full len_sc2 i s =
     (case s of (cnt, cnt_RC, ncount, ncount_RC) \<Rightarrow>
        let sc1_seg = py_slice sc1_full (int i) (int i + n project)
        in case for_loop (inner_body project sc1_seg sc2_full) [0..<len_sc2]
                  (cnt, cnt_RC, 0, 0) of
             Inl e \<Rightarrow> Inl e
           | Inr (cnt, cnt_RC, repeat_count, repeat_count_RC) \<Rightarrow>
               Inr (cnt, cnt_RC,
                    (if repeat_count > 1 then ncount @ [repeat_count] else ncount),
                    (if repeat_count_RC > 1 then ncount_RC @ [repeat_count_RC]
                     else ncount_RC)))"

definition check_ortho :: "string \<Rightarrow> string \<Rightarrow> Project \<Rightarrow> error + ortho_output" where
  "check_ortho sc1 sc2 project =
     (let cnt_RC0 = (if get_rev_compl project then PyInt 0 else PyNaN);
          (sc1_full, sc2_full) = circularise_sc project sc1 sc2
      in case for_loop (outer_body project sc1_full sc2_full (length sc2))
                [0..<length sc1] (0, cnt_RC0, [], []) of
           Inl e \<Rightarrow> Inl e
         | Inr (cnt, cnt_RC, ncount, ncount_RC) \<Rightarrow>
             Inr \<lparr>count = cnt,
                  count_revcompl = cnt_RC,
                  count_corrected = cnt - (sum_list ncount - int (length ncount)),
                  count_revcompl_corrected =
                    py_sub cnt_RC (sum_list ncount_RC - int (length ncount_RC)),
                  n_count = ncount,
                  n_count_revcompl = ncount_RC\<rparr>)"

subsection \<open>What the counters count\<close>

text \<open>
  The indices \<open>j\<close> among \<open>js\<close> at which the window of \<open>sc2_full\<close> matches \<open>sc1_seg\<close>,
  and those at which its reversed window does, which is looked at in the
  reverse-complement mode only.
\<close>

definition exact_hits :: "Project \<Rightarrow> string \<Rightarrow> string \<Rightarrow> nat list \<Rightarrow> nat list" where
  "exact_hits project sc1_seg sc2_full js =
     filter (\<lambda>j. is_match sc1_seg (py_slice sc2_full (int j) (int j + n project)) project) js"

definition rc_hits :: "Project \<Rightarrow> string \<Rightarrow> string \<Rightarrow> nat list \<Rightarrow> nat list" where
  "rc_hits project sc1_seg sc2_full js =
     filter (\<lambda>j. get_rev_compl project \<and>
                 is_match sc1_seg (py_slice_rev sc2_full (int j + n project) (int j)) project) js"

text \<open>
  The number of matches of the window of \<open>sc1_full\<close> at position \<open>i\<close> against the first
  \<open>len_sc2\<close> positions of \<open>sc2_full\<close>.
\<close>

definition exact_count_at :: "Project \<Rightarrow> string \<Rightarrow> string \<Rightarrow> nat \<Rightarrow> nat \<Rightarrow> int" where
  "exact_count_at project sc1_full sc2_full len_sc2 i =
     int (length (exact_hits project (py_slice sc1_full (int i) (int i + n project))
                    sc2_full [0..<len_sc2]))"

definition rc_count_at :: "Project \<Rightarrow> string \<Rightarrow> string \<Rightarrow> nat \<Rightarrow> nat \<Rightarrow> int" where
  "rc_count_at project sc1_full sc2_full len_sc2 i =
     int (length (rc_hits project (py_slice sc1_full (int i) (int i + n project))
                    sc2_full [0..<len_sc2]))"

text \<open>A validated sequence: every symbol is one of the four bases.\<close>

definition validated :: "string \<Rightarrow> bool" where
  "validated sc \<longleftrightarrow> set sc \<subseteq> set ''ATGC''"

section \<open>Properties of the helper functions\<close>

subsection \<open>Slices\<close>

lemma set_py_slice: "set (py_slice xs a b) \<subseteq> set xs"
  unfolding py_slice_def Let_def
  by (meson set_take_subset set_drop_subset subset_trans)

lemma set_py_slice_rev: "set (py_slice_rev xs a b) \<subseteq> set xs"
  unfolding py_slice_rev_def Let_def set_rev
  by (meson set_take_subset set_drop_subset subset_trans)

lemma length_py_slice: "length (py_slice xs a b) \<le> length xs"
  by (simp add: py_slice_def Let_def)

lemma length_py_slice_rev: "length (py_slice_rev xs a b) \<le> length xs"
  by (simp add: py_slice_rev_def Let_def)

lemma py_slice_window:
  assumes "0 \<le> k" "i \<le> length xs"
  shows "py_slice xs (int i) (int i + k) = take (nat k) (drop i xs)"
proof -
  have "take (nat (min (int i + k) (int (length xs)) - int i)) (drop i xs)
          = take (nat k) (drop i xs)"
    using assms by (cases "int i + k \<le> int (length xs)") (simp_all add: min_def)
  with assms show ?thesis
    by (simp add: py_slice_def adjust_pos_def Let_def min_absorb1)
qed

lemma py_slice_prefix:
  assumes "0 \<le> k"
  shows "py_slice xs 0 k = take (nat k) xs"
  using py_slice_window [of k 0 xs] assms by simp

lemma py_slice_rev_window:
  assumes "0 \<le> k" "i < length xs"
  shows "py_slice_rev xs (int i + k) (int i) = rev (take (nat k) (drop (Suc i) xs))"
proof -
  have "take (nat (min (int i + k) (int (length xs) - 1) - int i)) (drop (Suc i) xs)
          = take (nat k) (drop (Suc i) xs)"
    using assms by (cases "int i + k \<le> int (length xs) - 1") (simp_all add: min_def)
  moreover have "nat (int i + 1) = Suc i" by simp
  ultimately show ?thesis
    using assms by (simp add: py_slice_rev_def adjust_neg_def Let_def min_absorb1)
qed

lemma length_window:
  assumes "i \<le> length xs"
  shows "length (take k (drop i xs)) = k \<longleftrightarrow> i + k \<le> length xs"
  using assms by (auto simp: min_def)

subsection \<open>The complement of a validated segment\<close>

lemma dom_REVERSE: "dom REVERSE = set ''ATGC''"
  by (auto simp: REVERSE_def split: if_splits)

lemma complement_loop_validated:
  "set seg \<subseteq> set ''ATGC'' \<Longrightarrow> complement_loop seg s = Inr s"
proof (induction seg)
  case Nil
  then show ?case by simp
next
  case (Cons base rest)
  from Cons.prems have "base \<in> dom REVERSE" by (simp add: dom_REVERSE)
  then obtain b where "REVERSE base = Some b" by blast
  with Cons show ?case by simp
qed

lemma complement_validated: "set seg \<subseteq> set ''ATGC'' \<Longrightarrow> complement seg = Inr seg"
  by (simp add: complement_def complement_loop_validated)

subsection \<open>The circulariser\<close>

lemma circularise_sc_nonneg:
  assumes "0 \<le> n p"
  shows "circularise_sc p sc1 sc2 =
           (if is_linear p then (sc1, sc2)
            else (sc1 @ take (nat (n p)) sc1, sc2 @ take (nat (n p)) sc2))"
  using assms by (simp add: circularise_sc_def py_slice_prefix)

lemma set_circularise_sc:
  "set (fst (circularise_sc p sc1 sc2)) \<subseteq> set sc1"
  "set (snd (circularise_sc p sc1 sc2)) \<subseteq> set sc2"
  using set_py_slice [of sc1 0 "n p"] set_py_slice [of sc2 0 "n p"]
  by (auto simp: circularise_sc_def)

lemma length_circularise_sc:
  "length sc1 \<le> length (fst (circularise_sc p sc1 sc2))"
  "length sc2 \<le> length (snd (circularise_sc p sc1 sc2))"
  by (simp_all add: circularise_sc_def)

subsection \<open>The scan\<close>

lemma py_add_0: "py_add x 0 = x"
  by (cases x) simp_all

lemma py_add_add: "py_add (py_add x a) b = py_add x (a + b)"
  by (cases x) simp_all

lemma exact_hits_simps:
  "exact_hits p sc1_seg sc2_full [] = []"
  "exact_hits p sc1_seg sc2_full (j # js) =
     (if is_match sc1_seg (py_slice sc2_full (int j) (int j + n p)) p
      then j # exact_hits p sc1_seg sc2_full js else exact_hits p sc1_seg sc2_full js)"
  by (simp_all add: exact_hits_def)

lemma rc_hits_simps:
  "rc_hits p sc1_seg sc2_full [] = []"
  "rc_hits p sc1_seg sc2_full (j # js) =
     (if get_rev_compl p \<and>
         is_match sc1_seg (py_slice_rev sc2_full (int j + n p) (int j)) p
      then j # rc_hits p sc1_seg sc2_full js else rc_hits p sc1_seg sc2_full js)"
  by (simp_all add: rc_hits_def)

lemma inner_body_validated:
  assumes "get_rev_compl p \<longrightarrow> set sc2_full \<subseteq> set ''ATGC''"
  shows "inner_body p sc1_seg sc2_full j (c, cR, r, rR) =
           Inr (c + int (length (exact_hits p sc1_seg sc2_full [j])),
                py_add cR (int (length (rc_hits p sc1_seg sc2_full [j]))),
                r + int (length (exact_hits p sc1_seg sc2_full [j])),
                rR + int (length (rc_hits p sc1_seg sc2_full [j])))"
proof -
  have compl: "get_rev_compl p \<Longrightarrow>
      complement (py_slice_rev sc2_full (int j + n p) (int j)) =
        Inr (py_slice_rev sc2_full (int j + n p) (int j))"
    using assms set_py_slice_rev [of sc2_full] by (intro complement_validated) blast
  show ?thesis
    by (simp add: inner_body_def Let_def compl exact_hits_simps rc_hits_simps py_add_0)
qed

lemma inner_loop_validated:
  assumes "get_rev_compl p \<longrightarrow> set sc2_full \<subseteq> set ''ATGC''"
  shows "for_loop (inner_body p sc1_seg sc2_full) js (c, cR, r, rR) =
           Inr (c + int (length (exact_hits p sc1_seg sc2_full js)),
                py_add cR (int (length (rc_hits p sc1_seg sc2_full js))),
                r + int (length (exact_hits p sc1_seg sc2_full js)),
                rR + int (length (rc_hits p sc1_seg sc2_full js)))"
proof (induction js arbitrary: c cR r rR)
  case Nil
  show ?case by (simp add: exact_hits_simps rc_hits_simps py_add_0)
next
  case (Cons j js)
  show ?case
    by (simp add: inner_body_validated [OF assms] Cons.IH exact_hits_simps rc_hits_simps
        py_add_add py_add_0)
qed

lemma outer_body_validated:
  assumes "get_rev_compl p \<longrightarrow> set sc2_full \<subseteq> set ''ATGC''"
  shows "outer_body p sc1_full sc2_full len_sc2 i (c, cR, nc, ncR) =
           Inr (c + exact_count_at p sc1_full sc2_full len_sc2 i,
                py_add cR (rc_count_at p sc1_full sc2_full len_sc2 i),
                nc @ filter (\<lambda>k. 1 < k) [exact_count_at p sc1_full sc2_full len_sc2 i],
                ncR @ filter (\<lambda>k. 1 < k) [rc_count_at p sc1_full sc2_full len_sc2 i])"
  by (simp add: outer_body_def Let_def inner_loop_validated [OF assms]
      exact_count_at_def rc_count_at_def)

lemma outer_loop_validated:
  assumes "get_rev_compl p \<longrightarrow> set sc2_full \<subseteq> set ''ATGC''"
  shows "for_loop (outer_body p sc1_full sc2_full len_sc2) is (c, cR, nc, ncR) =
           Inr (c + sum_list (map (exact_count_at p sc1_full sc2_full len_sc2) is),
                py_add cR (sum_list (map (rc_count_at p sc1_full sc2_full len_sc2) is)),
                nc @ filter (\<lambda>k. 1 < k) (map (exact_count_at p sc1_full sc2_full len_sc2) is),
                ncR @ filter (\<lambda>k. 1 < k) (map (rc_count_at p sc1_full sc2_full len_sc2) is))"
proof (induction "is" arbitrary: c cR nc ncR)
  case Nil
  show ?case by (simp add: py_add_0)
next
  case (Cons i "is")
  show ?case
    by (simp add: outer_body_validated [OF assms] Cons.IH py_add_add add.assoc)
qed

lemma rc_count_at_disabled: "\<not> get_rev_compl p \<Longrightarrow> rc_count_at p s1 s2 l i = 0"
  by (simp add: rc_count_at_def rc_hits_def)

text \<open>
  The result of \<open>check_ortho\<close> on sequences for which \<open>complement\<close> cannot raise: the raw
  counts are the sums of the per-position counters, the multiplicity sequences keep the
  counters greater than one.
\<close>

lemma check_ortho_validated:
  fixes sc1 sc2 :: string and p :: Project
  defines "s1 \<equiv> fst (circularise_sc p sc1 sc2)"
    and "s2 \<equiv> snd (circularise_sc p sc1 sc2)"
  defines "E \<equiv> map (exact_count_at p s1 s2 (length sc2)) [0..<length sc1]"
    and "R \<equiv> map (rc_count_at p s1 s2 (length sc2)) [0..<length sc1]"
  assumes "get_rev_compl p \<longrightarrow> validated sc2"
  shows "check_ortho sc1 sc2 p =
           Inr \<lparr>count = sum_list E,
                count_revcompl = (if get_rev_compl p then PyInt (sum_list R) else PyNaN),
                count_corrected =
                  sum_list E - (sum_list (filter (\<lambda>k. 1 < k) E)
                                 - int (length (filter (\<lambda>k. 1 < k) E))),
                count_revcompl_corrected =
                  (if get_rev_compl p
                   then PyInt (sum_list R - (sum_list (filter (\<lambda>k. 1 < k) R)
                                              - int (length (filter (\<lambda>k. 1 < k) R))))
                   else PyNaN),
                n_count = filter (\<lambda>k. 1 < k) E,
                n_count_revcompl = filter (\<lambda>k. 1 < k) R\<rparr>"
proof -
  have v: "get_rev_compl p \<longrightarrow> set s2 \<subseteq> set ''ATGC''"
    using assms(5) set_circularise_sc(2) [of p sc1 sc2] by (auto simp: validated_def s2_def)
  have split: "circularise_sc p sc1 sc2 = (s1, s2)"
    by (simp add: s1_def s2_def)
  have R0: "\<not> get_rev_compl p \<Longrightarrow> R = map (\<lambda>i. 0) [0..<length sc1]"
    by (simp add: R_def rc_count_at_disabled)
  show ?thesis
    by (simp add: check_ortho_def split outer_loop_validated [OF v] E_def [symmetric]
        R_def [symmetric] R0)
qed

subsection \<open>Counting\<close>

lemma sum_list_repeats:
  "\<forall>k\<in>set xs. (1::int) < k \<Longrightarrow> 2 * int (length xs) \<le> sum_list xs"
  by (induction xs) auto

lemma filter_repeats_zero: "filter (\<lambda>k. (1::int) < k) (map (\<lambda>i. 0) xs) = []"
  by (induction xs) simp_all

lemma exact_hits_too_long:
  assumes "int (length sc2_full) < n p"
  shows "exact_hits p seg sc2_full js = []"
proof -
  have "\<not> is_match seg (py_slice sc2_full (int j) (int j + n p)) p" for j
    using assms length_py_slice [of sc2_full "int j" "int j + n p"]
    by (auto simp: is_match_def)
  then show ?thesis by (simp add: exact_hits_def)
qed

lemma rc_hits_too_long:
  assumes "int (length sc2_full) < n p"
  shows "rc_hits p seg sc2_full js = []"
proof -
  have "\<not> is_match seg (py_slice_rev sc2_full (int j + n p) (int j)) p" for j
    using assms length_py_slice_rev [of sc2_full "int j + n p" "int j"]
    by (auto simp: is_match_def)
  then show ?thesis by (simp add: rc_hits_def)
qed

lemma is_match_windows:
  assumes "n p = int k" and "i \<le> length s1" and "j \<le> length s2"
  shows "is_match (take k (drop i s1)) (take k (drop j s2)) p \<longleftrightarrow>
           i + k \<le> length s1 \<and> j + k \<le> length s2 \<and>
           take k (drop i s1) = take k (drop j s2)"
proof -
  have "is_match (take k (drop i s1)) (take k (drop j s2)) p \<longleftrightarrow>
          take k (drop i s1) = take k (drop j s2) \<and> length (take k (drop i s1)) = k"
    using assms(1) by (simp add: is_match_def)
  also have "\<dots> \<longleftrightarrow> take k (drop i s1) = take k (drop j s2) \<and>
          length (take k (drop i s1)) = k \<and> length (take k (drop j s2)) = k"
    by metis
  finally show ?thesis
    unfolding length_window [OF assms(2)] length_window [OF assms(3)] by blast
qed

lemma is_match_rev_windows:
  assumes "n p = int k" and "i \<le> length s1" and "j \<le> length s2"
  shows "is_match (take k (drop i s1)) (rev (take k (drop j s2))) p \<longleftrightarrow>
           i + k \<le> length s1 \<and> j + k \<le> length s2 \<and>
           take k (drop i s1) = rev (take k (drop j s2))"
proof -
  have "is_match (take k (drop i s1)) (rev (take k (drop j s2))) p \<longleftrightarrow>
          take k (drop i s1) = rev (take k (drop j s2)) \<and> length (take k (drop i s1)) = k"
    using assms(1) by (simp add: is_match_def)
  also have "\<dots> \<longleftrightarrow> take k (drop i s1) = rev (take k (drop j s2)) \<and>
          length (take k (drop i s1)) = k \<and> length (take k (drop j s2)) = k"
    by (metis length_rev)
  finally show ?thesis
    unfolding length_window [OF assms(2)] length_window [OF assms(3)] by blast
qed

lemma exact_count_at_windows:
  assumes "n p = int k" and "i \<le> length s1" and "len \<le> length s2"
  shows "exact_count_at p s1 s2 len i =
           int (length (filter (\<lambda>j. i + k \<le> length s1 \<and> j + k \<le> length s2 \<and>
                                     take k (drop i s1) = take k (drop j s2)) [0..<len]))"
proof -
  have "filter (\<lambda>j. is_match (py_slice s1 (int i) (int i + n p))
                       (py_slice s2 (int j) (int j + n p)) p) [0..<len] =
        filter (\<lambda>j. i + k \<le> length s1 \<and> j + k \<le> length s2 \<and>
                     take k (drop i s1) = take k (drop j s2)) [0..<len]"
  proof (rule filter_cong [OF refl])
    fix j assume "j \<in> set [0..<len]"
    then have "j \<le> length s2" using assms(3) by simp
    then show "is_match (py_slice s1 (int i) (int i + n p))
                 (py_slice s2 (int j) (int j + n p)) p \<longleftrightarrow>
               i + k \<le> length s1 \<and> j + k \<le> length s2 \<and>
               take k (drop i s1) = take k (drop j s2)"
      using assms(1,2) by (simp add: py_slice_window is_match_windows)
  qed
  then show ?thesis
    by (simp add: exact_count_at_def exact_hits_def)
qed

lemma rc_count_at_windows:
  assumes "n p = int k" and "i \<le> length s1" and "len \<le> length s2"
    and "get_rev_compl p"
  shows "rc_count_at p s1 s2 len i =
           int (length (filter (\<lambda>j. i + k \<le> length s1 \<and> Suc j + k \<le> length s2 \<and>
                                     take k (drop i s1) = rev (take k (drop (Suc j) s2)))
                          [0..<len]))"
proof -
  have "filter (\<lambda>j. get_rev_compl p \<and> is_match (py_slice s1 (int i) (int i + n p))
                       (py_slice_rev s2 (int j + n p) (int j)) p) [0..<len] =
        filter (\<lambda>j. i + k \<le> length s1 \<and> Suc j + k \<le> length s2 \<and>
                     take k (drop i s1) = rev (take k (drop (Suc j) s2))) [0..<len]"
  proof (rule filter_cong [OF refl])
    fix j assume "j \<in> set [0..<len]"
    then have "j < length s2" using assms(3) by simp
    then show "get_rev_compl p \<and> is_match (py_slice s1 (int i) (int i + n p))
                 (py_slice_rev s2 (int j + n p) (int j)) p \<longleftrightarrow>
               i + k \<le> length s1 \<and> Suc j + k \<le> length s2 \<and>
               take k (drop i s1) = rev (take k (drop (Suc j) s2))"
      using assms(1,2,4)
      by (simp add: py_slice_window py_slice_rev_window is_match_rev_windows)
  qed
  then show ?thesis
    by (simp add: rc_count_at_def rc_hits_def)
qed

subsection \<open>Upper case and lines\<close>

lemma of_char_less_256: "(of_char c :: nat) < 256"
  by (rule of_char_mod_256 [where ?'a = nat, THEN subst]) simp

lemma upper_char_eq_iff:
  "upper_char c = t \<longleftrightarrow>
     (if 97 \<le> (of_char c :: nat) \<and> (of_char c :: nat) \<le> 122
      then (of_char c :: nat) = of_char t + 32 else c = t)"
proof (cases "97 \<le> (of_char c :: nat) \<and> (of_char c :: nat) \<le> 122")
  case True
  have "(of_char c - 32 :: nat) < 256"
    using of_char_less_256 [of c] by linarith
  then have "(of_char c - 32 :: nat) < 2 ^ 8"
    by simp
  then have small: "take_bit 8 (of_char c - 32 :: nat) = of_char c - 32"
    by (rule take_bit_nat_eq_self)
  from True have "upper_char c = char_of (of_char c - 32 :: nat)"
    by (simp add: upper_char_def)
  then have "upper_char c = t \<longleftrightarrow> (of_char c - 32 :: nat) = of_char t"
    by (simp add: char_of_eq_iff small)
  with True show ?thesis by auto
next
  case False
  then show ?thesis by (auto simp: upper_char_def)
qed

lemma upper_char_code:
  fixes c t :: char
  defines "k \<equiv> (of_char c :: nat)" and "m \<equiv> (of_char t :: nat)"
  shows "upper_char c = t \<longleftrightarrow> (if 97 \<le> k \<and> k \<le> 122 then k = m + 32 else k = m)"
  unfolding k_def m_def upper_char_eq_iff [of c t] by simp

lemma char_eq_code: "c = d \<longleftrightarrow> (of_char c :: nat) = of_char d"
  by simp

lemma upper_char_A: "upper_char c = CHR ''A'' \<longleftrightarrow> c = CHR ''A'' \<or> c = CHR ''a''"
  unfolding upper_char_code char_eq_code [of c] by auto

lemma upper_char_T: "upper_char c = CHR ''T'' \<longleftrightarrow> c = CHR ''T'' \<or> c = CHR ''t''"
  unfolding upper_char_code char_eq_code [of c] by auto

lemma upper_char_G: "upper_char c = CHR ''G'' \<longleftrightarrow> c = CHR ''G'' \<or> c = CHR ''g''"
  unfolding upper_char_code char_eq_code [of c] by auto

lemma upper_char_C: "upper_char c = CHR ''C'' \<longleftrightarrow> c = CHR ''C'' \<or> c = CHR ''c''"
  unfolding upper_char_code char_eq_code [of c] by auto

lemma upper_char_newline: "upper_char c = newline \<longleftrightarrow> c = newline"
  unfolding upper_char_code char_eq_code [of c] newline_def by simp

lemma upper_char_ATGC:
  "upper_char c \<in> set ''ATGC'' \<longleftrightarrow> c \<in> set ''ATGCatgc''"
proof -
  have "upper_char c \<in> set ''ATGC'' \<longleftrightarrow>
          upper_char c = CHR ''A'' \<or> upper_char c = CHR ''T'' \<or>
          upper_char c = CHR ''G'' \<or> upper_char c = CHR ''C''"
    by simp
  also have "\<dots> \<longleftrightarrow>
          (c = CHR ''A'' \<or> c = CHR ''a'') \<or> (c = CHR ''T'' \<or> c = CHR ''t'') \<or>
          (c = CHR ''G'' \<or> c = CHR ''g'') \<or> (c = CHR ''C'' \<or> c = CHR ''c'')"
    by (simp only: upper_char_A upper_char_T upper_char_G upper_char_C)
  also have "\<dots> \<longleftrightarrow>
          c = CHR ''A'' \<or> c = CHR ''T'' \<or> c = CHR ''G'' \<or> c = CHR ''C'' \<or>
          c = CHR ''a'' \<or> c = CHR ''t'' \<or> c = CHR ''g'' \<or> c = CHR ''c''"
    by blast
  also have "\<dots> \<longleftrightarrow> c \<in> set ''ATGCatgc''"
    by simp
  finally show ?thesis .
qed

lemma upper_validated: "set (upper s) \<subseteq> set ''ATGC'' \<longleftrightarrow> set s \<subseteq> set ''ATGCatgc''"
proof -
  have "set (upper s) \<subseteq> set ''ATGC'' \<longleftrightarrow> (\<forall>c\<in>set s. upper_char c \<in> set ''ATGC'')"
    unfolding upper_def by (simp only: set_map image_subset_iff)
  also have "\<dots> \<longleftrightarrow> (\<forall>c\<in>set s. c \<in> set ''ATGCatgc'')"
    by (simp only: upper_char_ATGC)
  also have "\<dots> \<longleftrightarrow> set s \<subseteq> set ''ATGCatgc''"
    by blast
  finally show ?thesis .
qed

lemma newline_upper: "newline \<in> set (upper s) \<longleftrightarrow> newline \<in> set s"
proof -
  have "newline \<in> set (upper s) \<longleftrightarrow> (\<exists>c\<in>set s. newline = upper_char c)"
    unfolding upper_def set_map image_iff ..
  also have "\<dots> \<longleftrightarrow> (\<exists>c\<in>set s. c = newline)"
    using upper_char_newline by metis
  finally show ?thesis by simp
qed

lemma readline_line:
  "newline \<notin> set line \<Longrightarrow> readline line = line"
  "newline \<notin> set line \<Longrightarrow> readline (line @ newline # rest) = line @ [newline]"
  by (induction line) auto

lemma strip_newline_line:
  assumes "newline \<notin> set s"
  shows "strip_newline s = s" and "strip_newline (s @ [newline]) = s"
proof -
  have a: "dropWhile (\<lambda>c. c = newline) s = s"
    using assms by (intro dropWhile_id) auto
  have b: "dropWhile (\<lambda>c. c = newline) (rev s) = rev s"
    using assms by (intro dropWhile_id) auto
  show "strip_newline s = s"
    by (simp add: strip_newline_def a b)
  have c: "dropWhile (\<lambda>c. c = newline) (s @ [newline]) = (if s = [] then [] else s @ [newline])"
    using assms by (cases s) auto
  show "strip_newline (s @ [newline]) = s"
    by (simp add: strip_newline_def c b)
qed

text \<open>Every text is a first line without newline, alone or followed by a newline.\<close>

lemma first_line_cases:
  "\<exists>line rest. newline \<notin> set line \<and> (file = line \<or> file = line @ newline # rest)"
proof (cases "newline \<in> set file")
  case True
  then obtain line rest where "file = line @ newline # rest" and "newline \<notin> set line"
    by (auto dest: split_list_first)
  then show ?thesis by blast
next
  case False
  then show ?thesis by blast
qed

lemma proc_infile_line:
  assumes "newline \<notin> set line"
  shows "proc_infile line =
           (if set (upper line) \<subseteq> set ''ATGC'' then Inr (upper line) else Inl (SystemExit 0))"
    and "proc_infile (line @ newline # rest) =
           (if set (upper line) \<subseteq> set ''ATGC'' then Inr (upper line) else Inl (SystemExit 0))"
proof -
  have nl: "newline \<notin> set (upper line)"
    using assms by (simp add: newline_upper)
  have up: "upper (line @ [newline]) = upper line @ [newline]"
    by (simp add: upper_def upper_char_newline)
  show "proc_infile line =
           (if set (upper line) \<subseteq> set ''ATGC'' then Inr (upper line) else Inl (SystemExit 0))"
    by (simp only: proc_infile_def Let_def readline_line(1) [OF assms]
        strip_newline_line(1) [OF nl] not_not if_not_P if_P split: if_splits) auto
  show "proc_infile (line @ newline # rest) =
           (if set (upper line) \<subseteq> set ''ATGC'' then Inr (upper line) else Inl (SystemExit 0))"
    by (simp only: proc_infile_def Let_def readline_line(2) [OF assms] up
        strip_newline_line(2) [OF nl]) auto
qed


section \<open>The claims\<close>

subsection \<open>The complement mapper\<close>

text \<open>
  C1. The claim: on every segment over A, T, G, C the complement mapper returns the
  reverse complement, so that the segment ATGC is mapped to GCAT. The docstring of
  \<open>complement\<close> says the same. The function returns its argument: on ATGC the result
  is ATGC.
\<close>

theorem complement_returns_segment_unchanged:
  "complement ''ATGC'' = Inr ''ATGC''"
  by (simp add: complement_def REVERSE_def)

text \<open>
  C2. The claim: for \<open>sc1 = AAAA\<close>, \<open>sc2 = TTTT\<close>, \<open>n = 2\<close>, linear, with the reverse
  complements counted, the raw exact count is 0 and the raw reverse-complement count is
  greater than 0. The exact count is 0; the reverse-complement count is 0 too, since the
  reversed window of \<open>sc2\<close> is compared as it is, without substitution.
\<close>

theorem no_rev_compl_match_AAAA_TTTT:
  "check_ortho ''AAAA'' ''TTTT''
     \<lparr>folder = ''./'', sc1_path = ''sc1.txt'', sc2_path = ''sc2.txt'', n = 2,
      is_linear = True, get_rev_compl = True\<rparr> =
   Inr \<lparr>count = 0, count_revcompl = PyInt 0, count_corrected = 0,
        count_revcompl_corrected = PyInt 0, n_count = [], n_count_revcompl = []\<rparr>"
  (is "check_ortho ?sc1 ?sc2 ?p = _")
proof -
  have v: "get_rev_compl ?p \<longrightarrow> validated ?sc2"
    by (simp add: validated_def)
  have e: "map (exact_count_at ?p (fst (circularise_sc ?p ?sc1 ?sc2))
             (snd (circularise_sc ?p ?sc1 ?sc2)) (length ?sc2)) [0..<length ?sc1] =
           [0, 0, 0, 0]"
    by code_simp
  have r: "map (rc_count_at ?p (fst (circularise_sc ?p ?sc1 ?sc2))
             (snd (circularise_sc ?p ?sc1 ?sc2)) (length ?sc2)) [0..<length ?sc1] =
           [0, 0, 0, 0]"
    by code_simp
  show ?thesis
    unfolding check_ortho_validated [OF v] e r by simp
qed

subsection \<open>The repeat correction\<close>

text \<open>
  C3. For validated sequences and every configuration, \<open>check_ortho\<close> returns a result in
  which the raw exact count is the sum of the per-position counters, the multiplicity
  sequence holds, in the order of the positions of \<open>sc1\<close>, the counters that exceed 1 and
  no other entry, and the corrected count is the raw count minus the sum of the
  multiplicity sequence less its length. With the reverse complements counted, the raw
  reverse-complement count is the integer sum of the reverse-complement counters, its
  multiplicity sequence holds the counters that exceed 1, and the corrected
  reverse-complement count is the integer obtained from that sum by the same subtraction.
\<close>

theorem corrected_count_formula:
  assumes "validated sc1" and "validated sc2"
  shows "\<exists>r. check_ortho sc1 sc2 p = Inr r \<and>
           count r = sum_list (map (exact_count_at p (fst (circularise_sc p sc1 sc2))
                        (snd (circularise_sc p sc1 sc2)) (length sc2)) [0..<length sc1]) \<and>
           n_count r = filter (\<lambda>k. 1 < k)
                        (map (exact_count_at p (fst (circularise_sc p sc1 sc2))
                           (snd (circularise_sc p sc1 sc2)) (length sc2)) [0..<length sc1]) \<and>
           count_corrected r = count r - (sum_list (n_count r) - int (length (n_count r))) \<and>
           (get_rev_compl p \<longrightarrow>
              count_revcompl r =
                PyInt (sum_list (map (rc_count_at p (fst (circularise_sc p sc1 sc2))
                         (snd (circularise_sc p sc1 sc2)) (length sc2)) [0..<length sc1])) \<and>
              n_count_revcompl r = filter (\<lambda>k. 1 < k)
                        (map (rc_count_at p (fst (circularise_sc p sc1 sc2))
                           (snd (circularise_sc p sc1 sc2)) (length sc2)) [0..<length sc1]) \<and>
              count_revcompl_corrected r =
                PyInt (sum_list (map (rc_count_at p (fst (circularise_sc p sc1 sc2))
                         (snd (circularise_sc p sc1 sc2)) (length sc2)) [0..<length sc1])
                       - (sum_list (n_count_revcompl r)
                          - int (length (n_count_revcompl r)))))"
  using assms(2) by (simp add: check_ortho_validated)

text \<open>
  With \<open>sc1 = AA\<close>, \<open>sc2 = AAA\<close>, \<open>n = 1\<close>, linear, reverse complements counted: each
  position of \<open>sc1\<close> matches three positions of \<open>sc2\<close> and two of its reversed windows,
  so that both corrections subtract.
\<close>

theorem corrected_count_formula_witness:
  "validated ''AA'' \<and> validated ''AAA'' \<and>
   (\<exists>r. check_ortho ''AA'' ''AAA''
          \<lparr>folder = ''./'', sc1_path = ''sc1.txt'', sc2_path = ''sc2.txt'', n = 1,
           is_linear = True, get_rev_compl = True\<rparr> = Inr r \<and>
        count r = 6 \<and> n_count r = [3, 3] \<and> count_corrected r = 2 \<and>
        count_revcompl r = PyInt 4 \<and> n_count_revcompl r = [2, 2] \<and>
        count_revcompl_corrected r = PyInt 2)"
  (is "validated ?sc1 \<and> validated ?sc2 \<and> (\<exists>r. check_ortho _ _ ?p = _ \<and> _)")
proof -
  have v: "validated ?sc1" "validated ?sc2"
    by (simp_all add: validated_def)
  have e: "map (exact_count_at ?p (fst (circularise_sc ?p ?sc1 ?sc2))
             (snd (circularise_sc ?p ?sc1 ?sc2)) (length ?sc2)) [0..<length ?sc1] =
           [3, 3]"
    by code_simp
  have r: "map (rc_count_at ?p (fst (circularise_sc ?p ?sc1 ?sc2))
             (snd (circularise_sc ?p ?sc1 ?sc2)) (length ?sc2)) [0..<length ?sc1] =
           [2, 2]"
    by code_simp
  have "\<exists>r. check_ortho ?sc1 ?sc2 ?p = Inr r \<and>
          count r = sum_list [3, 3] \<and>
          n_count r = filter (\<lambda>k. 1 < k) [3, 3] \<and>
          count_corrected r = count r - (sum_list (n_count r) - int (length (n_count r))) \<and>
          (get_rev_compl ?p \<longrightarrow>
             count_revcompl r = PyInt (sum_list [2, 2]) \<and>
             n_count_revcompl r = filter (\<lambda>k. 1 < k) [2, 2] \<and>
             count_revcompl_corrected r =
               PyInt (sum_list [2, 2]
                      - (sum_list (n_count_revcompl r)
                         - int (length (n_count_revcompl r)))))"
    using corrected_count_formula [OF v, of ?p] unfolding e r .
  then obtain res where "check_ortho ?sc1 ?sc2 ?p = Inr res"
    and "count res = 6" and "n_count res = [3, 3]" and "count_corrected res = 2"
    and "count_revcompl res = PyInt 4" and "n_count_revcompl res = [2, 2]"
    and "count_revcompl_corrected res = PyInt 2"
    by auto
  then show ?thesis
    using v by blast
qed

text \<open>
  C5. For validated sequences and every configuration, the corrected exact count is at
  most the raw exact count, and the two are equal exactly when the exact multiplicity
  sequence is empty.
\<close>

theorem corrected_le_raw:
  assumes "validated sc1" and "validated sc2"
  shows "\<exists>r. check_ortho sc1 sc2 p = Inr r \<and>
           count_corrected r \<le> count r \<and>
           (count_corrected r = count r \<longleftrightarrow> n_count r = [])"
proof -
  define E where "E = filter (\<lambda>k. (1::int) < k)
     (map (exact_count_at p (fst (circularise_sc p sc1 sc2))
        (snd (circularise_sc p sc1 sc2)) (length sc2)) [0..<length sc1])"
  obtain r where r: "check_ortho sc1 sc2 p = Inr r"
    and corrected: "count_corrected r = count r - (sum_list E - int (length E))"
    and repeats: "n_count r = E"
    using assms(2) by (simp add: check_ortho_validated E_def)
  have "\<forall>k\<in>set E. 1 < k" by (simp add: E_def)
  then have twice: "2 * int (length E) \<le> sum_list E" by (rule sum_list_repeats)
  have "count_corrected r \<le> count r"
    using corrected twice by linarith
  moreover have "count_corrected r = count r \<longleftrightarrow> n_count r = []"
  proof
    assume "count_corrected r = count r"
    with corrected twice have "int (length E) = 0" by linarith
    then show "n_count r = []" by (simp add: repeats)
  next
    assume "n_count r = []"
    then show "count_corrected r = count r" by (simp add: corrected repeats)
  qed
  ultimately show ?thesis using r by blast
qed

theorem corrected_le_raw_witness:
  "validated ''ATGCATGC'' \<and>
   (\<exists>r. check_ortho ''ATGCATGC'' ''ATGCATGC''
          \<lparr>folder = ''./'', sc1_path = ''sc1.txt'', sc2_path = ''sc2.txt'', n = 4,
           is_linear = False, get_rev_compl = False\<rparr> = Inr r \<and>
        count_corrected r \<le> count r \<and>
        (count_corrected r = count r) = (n_count r = []))"
proof -
  have v: "validated ''ATGCATGC''"
    by (simp add: validated_def)
  from corrected_le_raw [OF v v,
      of "\<lparr>folder = ''./'', sc1_path = ''sc1.txt'', sc2_path = ''sc2.txt'', n = 4,
         is_linear = False, get_rev_compl = False\<rparr>"]
  show ?thesis
    using v by blast
qed

subsection \<open>The circulariser\<close>

text \<open>
  C4. For a segment length of at least 1, the circulariser returns each sequence followed
  by its first \<open>n\<close> symbols when the scaffolds are circular, so that the first \<open>len(s)\<close>
  symbols of the extended sequence are \<open>s\<close>, and returns each sequence unchanged when they
  are linear.
\<close>

theorem circularise_sc_spec:
  assumes "1 \<le> n p"
  shows "circularise_sc p sc1 sc2 =
           (if is_linear p then (sc1, sc2)
            else (sc1 @ take (nat (n p)) sc1, sc2 @ take (nat (n p)) sc2)) \<and>
         take (length sc1) (fst (circularise_sc p sc1 sc2)) = sc1 \<and>
         take (length sc2) (snd (circularise_sc p sc1 sc2)) = sc2"
  using assms by (simp add: circularise_sc_nonneg)

theorem circularise_sc_spec_witness:
  "circularise_sc \<lparr>folder = ''./'', sc1_path = ''sc1.txt'', sc2_path = ''sc2.txt'', n = 3,
      is_linear = False, get_rev_compl = False\<rparr>
     ''ATGCA'' ''GC'' = (''ATGCAATG'', ''GCGC'')"
  using circularise_sc_spec
    [of "\<lparr>folder = ''./'', sc1_path = ''sc1.txt'', sc2_path = ''sc2.txt'', n = 3,
       is_linear = False, get_rev_compl = False\<rparr>"
      "''ATGCA''" "''GC''"]
  by simp

subsection \<open>Concrete scaffolds\<close>

text \<open>
  The value of \<open>check_ortho\<close> on two equal scaffolds of period four, circular, with
  \<open>n = 4\<close> and no reverse complements.
\<close>

lemma period_four_value:
  "check_ortho ''ATGCATGC'' ''ATGCATGC''
     \<lparr>folder = ''./'', sc1_path = ''sc1.txt'', sc2_path = ''sc2.txt'', n = 4,
      is_linear = False, get_rev_compl = False\<rparr> =
   Inr \<lparr>count = 16, count_revcompl = PyNaN, count_corrected = 8,
        count_revcompl_corrected = PyNaN, n_count = [2, 2, 2, 2, 2, 2, 2, 2],
        n_count_revcompl = []\<rparr>"
  (is "check_ortho ?sc1 ?sc2 ?p = _")
proof -
  have v: "get_rev_compl ?p \<longrightarrow> validated ?sc2"
    by (simp add: validated_def)
  have e: "map (exact_count_at ?p (fst (circularise_sc ?p ?sc1 ?sc2))
             (snd (circularise_sc ?p ?sc1 ?sc2)) (length ?sc2)) [0..<length ?sc1] =
           [2, 2, 2, 2, 2, 2, 2, 2]"
    by code_simp
  have r: "map (rc_count_at ?p (fst (circularise_sc ?p ?sc1 ?sc2))
             (snd (circularise_sc ?p ?sc1 ?sc2)) (length ?sc2)) [0..<length ?sc1] =
           [0, 0, 0, 0, 0, 0, 0, 0]"
    by code_simp
  show ?thesis
    unfolding check_ortho_validated [OF v] e r by simp
qed

text \<open>
  C6. For \<open>sc1 = sc2 = ATGCATGC\<close>, \<open>n = 4\<close>, circular, reverse complements not counted,
  the raw exact count is greater than 8 and the corrected exact count is 8: each of the
  eight positions of \<open>sc1\<close> matches two positions of \<open>sc2\<close>.
\<close>

theorem period_four_scaffolds:
  "\<exists>r. check_ortho ''ATGCATGC'' ''ATGCATGC''
         \<lparr>folder = ''./'', sc1_path = ''sc1.txt'', sc2_path = ''sc2.txt'', n = 4,
          is_linear = False, get_rev_compl = False\<rparr> = Inr r \<and>
       8 < count r \<and> count_corrected r = 8 \<and>
       count r = 16 \<and> n_count r = [2, 2, 2, 2, 2, 2, 2, 2]"
  by (simp add: period_four_value)

subsection \<open>Segments longer than a sequence\<close>

text \<open>
  C7. The claim: when \<open>n\<close> exceeds the length of \<open>sc2\<close>, the scoring fails with
  \<open>InvalidSegmentLength\<close> before any comparison. \<open>check_ortho\<close> has no check of the segment
  length and no such error: for validated sequences it returns a result. When the
  scaffolds are linear no window of \<open>sc2\<close> has length \<open>n\<close>, so that the counts are 0 and
  the multiplicity sequences are empty.
\<close>

theorem no_segment_length_guard:
  assumes "validated sc1" and "validated sc2" and "int (length sc2) < n p"
  shows "\<exists>r. check_ortho sc1 sc2 p = Inr r \<and>
           (is_linear p \<longrightarrow>
              count r = 0 \<and> count_corrected r = 0 \<and> n_count r = [] \<and>
              n_count_revcompl r = [] \<and>
              count_revcompl r = (if get_rev_compl p then PyInt 0 else PyNaN))"
proof (cases "is_linear p")
  case True
  then have c: "circularise_sc p sc1 sc2 = (sc1, sc2)"
    by (simp add: circularise_sc_def)
  have e: "exact_count_at p sc1 sc2 (length sc2) = (\<lambda>i. 0)"
    by (rule ext) (simp add: exact_count_at_def exact_hits_too_long [OF assms(3)])
  have r: "rc_count_at p sc1 sc2 (length sc2) = (\<lambda>i. 0)"
    by (rule ext) (simp add: rc_count_at_def rc_hits_too_long [OF assms(3)])
  show ?thesis
    using assms(2) by (simp add: check_ortho_validated c e r filter_repeats_zero)
next
  case False
  then show ?thesis
    using assms(2) by (simp add: check_ortho_validated)
qed

theorem no_segment_length_guard_witness:
  "validated ''AT'' \<and> validated ''A'' \<and>
   (\<exists>r. check_ortho ''AT'' ''A''
          \<lparr>folder = ''./'', sc1_path = ''sc1.txt'', sc2_path = ''sc2.txt'', n = 2,
           is_linear = True, get_rev_compl = True\<rparr> = Inr r \<and>
        count r = 0 \<and> count_corrected r = 0 \<and> n_count r = [] \<and>
        n_count_revcompl r = [] \<and> count_revcompl r = PyInt 0)"
proof -
  have v: "validated ''AT''" "validated ''A''"
    by (simp_all add: validated_def)
  from no_segment_length_guard [OF v,
      of "\<lparr>folder = ''./'', sc1_path = ''sc1.txt'', sc2_path = ''sc2.txt'', n = 2,
         is_linear = True, get_rev_compl = True\<rparr>"]
  show ?thesis
    using v by auto
qed

text \<open>
  With \<open>sc1 = sc2 = AA\<close>, circular, and \<open>n = 3\<close>, greater than the length of \<open>sc2\<close>, the
  scoring returns a result, with four matches.
\<close>

theorem segment_longer_than_sc2_returns:
  "int (length ''AA'') < 3 \<and>
   check_ortho ''AA'' ''AA''
     \<lparr>folder = ''./'', sc1_path = ''sc1.txt'', sc2_path = ''sc2.txt'', n = 3,
      is_linear = False, get_rev_compl = False\<rparr> =
   Inr \<lparr>count = 4, count_revcompl = PyNaN, count_corrected = 2,
        count_revcompl_corrected = PyNaN, n_count = [2, 2], n_count_revcompl = []\<rparr>"
  (is "_ \<and> check_ortho ?sc1 ?sc2 ?p = _")
proof -
  have v: "get_rev_compl ?p \<longrightarrow> validated ?sc2"
    by (simp add: validated_def)
  have e: "map (exact_count_at ?p (fst (circularise_sc ?p ?sc1 ?sc2))
             (snd (circularise_sc ?p ?sc1 ?sc2)) (length ?sc2)) [0..<length ?sc1] =
           [2, 2]"
    by code_simp
  have r: "map (rc_count_at ?p (fst (circularise_sc ?p ?sc1 ?sc2))
             (snd (circularise_sc ?p ?sc1 ?sc2)) (length ?sc2)) [0..<length ?sc1] =
           [0, 0]"
    by code_simp
  show ?thesis
    unfolding check_ortho_validated [OF v] e r by simp
qed

text \<open>
  C10. For validated sequences and every segment length of at least 1, also one greater
  than the length of a sequence, \<open>check_ortho\<close> returns a result. Its raw exact count is
  the number of pairs of positions at which both windows have the full length \<open>n\<close> and
  are equal, and its raw reverse-complement count the number of pairs at which the window
  of \<open>sc1\<close> and the reversed window of \<open>sc2\<close> one position to the right have the full
  length and are equal: a window cut short by the end of a sequence is never counted.
\<close>

theorem scan_counts_full_windows:
  fixes sc1 sc2 :: string and p :: Project
  defines "s1 \<equiv> fst (circularise_sc p sc1 sc2)"
    and "s2 \<equiv> snd (circularise_sc p sc1 sc2)"
    and "k \<equiv> nat (n p)"
  assumes "validated sc1" and "validated sc2" and "1 \<le> n p"
  shows "\<exists>r. check_ortho sc1 sc2 p = Inr r \<and>
           count r =
             sum_list (map (\<lambda>i. int (length (filter
                 (\<lambda>j. i + k \<le> length s1 \<and> j + k \<le> length s2 \<and>
                      take k (drop i s1) = take k (drop j s2))
                 [0..<length sc2]))) [0..<length sc1]) \<and>
           count_revcompl r =
             (if get_rev_compl p
              then PyInt (sum_list (map (\<lambda>i. int (length (filter
                 (\<lambda>j. i + k \<le> length s1 \<and> Suc j + k \<le> length s2 \<and>
                      take k (drop i s1) = rev (take k (drop (Suc j) s2)))
                 [0..<length sc2]))) [0..<length sc1]))
              else PyNaN)"
proof -
  have nk: "n p = int k"
    using assms(6) by (simp add: k_def)
  have l1: "length sc1 \<le> length s1" and l2: "length sc2 \<le> length s2"
    by (simp_all add: s1_def s2_def length_circularise_sc)
  have e: "map (exact_count_at p s1 s2 (length sc2)) [0..<length sc1] =
           map (\<lambda>i. int (length (filter
                 (\<lambda>j. i + k \<le> length s1 \<and> j + k \<le> length s2 \<and>
                      take k (drop i s1) = take k (drop j s2))
                 [0..<length sc2]))) [0..<length sc1]"
    using l1 by (intro map_cong [OF refl] exact_count_at_windows [OF nk _ l2]) simp
  have r: "map (rc_count_at p s1 s2 (length sc2)) [0..<length sc1] =
           map (\<lambda>i. int (length (filter
                 (\<lambda>j. i + k \<le> length s1 \<and> Suc j + k \<le> length s2 \<and>
                      take k (drop i s1) = rev (take k (drop (Suc j) s2)))
                 [0..<length sc2]))) [0..<length sc1]"
    if "get_rev_compl p"
    using l1 that by (intro map_cong [OF refl] rc_count_at_windows [OF nk _ l2]) simp_all
  show ?thesis
  proof (cases "get_rev_compl p")
    case True
    then show ?thesis
      using assms(5)
      by (simp add: check_ortho_validated s1_def [symmetric] s2_def [symmetric] e r)
  next
    case False
    then show ?thesis
      by (simp add: check_ortho_validated s1_def [symmetric] s2_def [symmetric] e)
  qed
qed

theorem scan_counts_full_windows_witness:
  "validated ''ATG'' \<and> validated ''AT'' \<and>
   (\<exists>r. check_ortho ''ATG'' ''AT''
          \<lparr>folder = ''./'', sc1_path = ''sc1.txt'', sc2_path = ''sc2.txt'', n = 5,
           is_linear = True, get_rev_compl = True\<rparr> = Inr r \<and>
        count r = 0 \<and> count_revcompl r = PyInt 0)"
proof -
  have v: "validated ''ATG''" "validated ''AT''"
    by (simp_all add: validated_def)
  have k: "1 \<le> n \<lparr>folder = ''./'', sc1_path = ''sc1.txt'', sc2_path = ''sc2.txt'', n = 5,
         is_linear = True, get_rev_compl = True\<rparr>"
    by simp
  from scan_counts_full_windows [OF v k]
  show ?thesis
    using v by (auto simp: circularise_sc_def)
qed

subsection \<open>The validator\<close>

text \<open>
  C8. The claim: validation fails exactly when the cleaned string is empty or has a
  symbol outside A, T, G, C. \<open>proc_infile\<close> has no check for an empty string. It reads
  the first line, turns it to upper case and strips the newline; it exits, with code 0,
  exactly when the line has a symbol that is none of A, T, G, C in either case, and
  returns the line in upper case otherwise, the empty line included.
\<close>

theorem proc_infile_accepts:
  assumes "newline \<notin> set line"
    and "file = line \<or> file = line @ newline # rest"
  shows "proc_infile file =
           (if set line \<subseteq> set ''ATGCatgc'' then Inr (upper line) else Inl (SystemExit 0))"
  using assms(2) proc_infile_line [OF assms(1)] by (auto simp only: upper_validated)

theorem proc_infile_accepts_witness:
  "proc_infile (''atGc'' @ newline # ''TTTT'') = Inr ''ATGC''"
proof -
  have "newline \<notin> set ''atGc''"
    by (simp add: newline_def)
  then have "proc_infile (''atGc'' @ newline # ''TTTT'') =
      (if set ''atGc'' \<subseteq> set ''ATGCatgc'' then Inr (upper ''atGc'') else Inl (SystemExit 0))"
    by (rule proc_infile_accepts) simp
  moreover have "upper ''atGc'' = ''ATGC''"
    by code_simp
  ultimately show ?thesis
    by simp
qed

text \<open>The empty file and the file of one empty line are accepted.\<close>

theorem empty_sequence_accepted:
  "proc_infile [] = Inr [] \<and> proc_infile [newline] = Inr []"
  by code_simp

subsection \<open>Reverse complements not counted\<close>

text \<open>
  C9. The claim: with the reverse complements not counted, the two reverse-complement
  counts are an explicit absent state and no sentinel number. In \<open>check_ortho\<close> the counter
  starts as \<open>math.nan\<close> and is never changed: both counts are the float \<open>nan\<close>, which is
  no integer count, and the reverse-complement multiplicity sequence is empty. This holds
  for all sequences, since \<open>complement\<close> is not called.
\<close>

theorem rev_compl_disabled_is_nan:
  assumes "\<not> get_rev_compl p"
  shows "\<exists>r. check_ortho sc1 sc2 p = Inr r \<and>
           count_revcompl r = PyNaN \<and>
           count_revcompl_corrected r = PyNaN \<and>
           n_count_revcompl r = []"
  using assms by (simp add: check_ortho_validated rc_count_at_disabled filter_repeats_zero)

theorem rev_compl_disabled_is_nan_witness:
  "\<exists>r. check_ortho ''ATXG'' ''NNA''
         \<lparr>folder = ''./'', sc1_path = ''sc1.txt'', sc2_path = ''sc2.txt'', n = 2,
          is_linear = False, get_rev_compl = False\<rparr> = Inr r \<and>
       count_revcompl r = PyNaN \<and> count_revcompl_corrected r = PyNaN \<and>
       n_count_revcompl r = []"
  by (rule rev_compl_disabled_is_nan) simp

text \<open>
  With \<open>sc1 = sc2 = AT\<close>, linear, \<open>n = 1\<close>, both reverse-complement fields of the result
  hold \<open>nan\<close>.
\<close>

theorem rev_compl_disabled_holds_nan:
  "check_ortho ''AT'' ''AT''
     \<lparr>folder = ''./'', sc1_path = ''sc1.txt'', sc2_path = ''sc2.txt'', n = 1,
      is_linear = True, get_rev_compl = False\<rparr> =
   Inr \<lparr>count = 2, count_revcompl = PyNaN, count_corrected = 2,
        count_revcompl_corrected = PyNaN, n_count = [], n_count_revcompl = []\<rparr>"
  (is "check_ortho ?sc1 ?sc2 ?p = _")
proof -
  have v: "get_rev_compl ?p \<longrightarrow> validated ?sc2"
    by (simp add: validated_def)
  have e: "map (exact_count_at ?p (fst (circularise_sc ?p ?sc1 ?sc2))
             (snd (circularise_sc ?p ?sc1 ?sc2)) (length ?sc2)) [0..<length ?sc1] =
           [1, 1]"
    by code_simp
  have r: "map (rc_count_at ?p (fst (circularise_sc ?p ?sc1 ?sc2))
             (snd (circularise_sc ?p ?sc1 ?sc2)) (length ?sc2)) [0..<length ?sc1] =
           [0, 0]"
    by code_simp
  show ?thesis
    unfolding check_ortho_validated [OF v] e r by simp
qed

end
